theory Spec2Isabelle
  imports Complex_Main "HOL-Library.Sublist"
begin

section \<open>AutoLinker: the index, the matcher and the phrase scanner of \<open>src/main.ts\<close>\<close>

subsection \<open>Strings and the host's Unicode operations\<close>

text \<open>
  A JavaScript string is a sequence of characters, each given by its number
  (\<open>'a'\<close> is 97, the combining grave accent is \<open>0x300\<close>). Text is taken to be
  well formed, so that the operations working on code units and those working on code
  points see the same characters. \<open>ustr\<close> turns a literal into such a string.
\<close>

type_synonym uchar = nat
type_synonym ustring = "uchar list"

definition ustr :: "string \<Rightarrow> ustring" where
  "ustr s = map of_char s"

text \<open>
  \<open>String.prototype.normalize('NFD')\<close>, \<open>String.prototype.toLowerCase\<close> and the
  character class \<open>[\p{L}\p{N}]\<close> are given by the host's Unicode tables, which are no
  part of the repository: they are parameters of the model.
\<close>

record platform =
  nfd :: "ustring \<Rightarrow> ustring"
  toLowerCase :: "ustring \<Rightarrow> ustring"
  isLetterOrNumber :: "uchar \<Rightarrow> bool"

text \<open>
  The class of the first \<open>replace\<close> in \<open>normalizeText\<close>: the source writes the two
  characters U+0300 and U+036F themselves, the range of the combining diacritical marks.
\<close>

definition isCombiningMark :: "uchar \<Rightarrow> bool" where
  "isCombiningMark c \<longleftrightarrow> 0x300 \<le> c \<and> c \<le> 0x36F"

text \<open>
  \<open>normalizeText(text)\<close>:
  \<^verbatim>\<open>text.normalize('NFD').replace(/[U+0300-U+036F]/g, '').toLowerCase().replace(/[^\p{L}\p{N}]/gu, '')\<close>
\<close>

definition normalizeText :: "platform \<Rightarrow> ustring \<Rightarrow> ustring" where
  "normalizeText P text =
     filter (isLetterOrNumber P)
       (toLowerCase P (filter (\<lambda>c. \<not> isCombiningMark c) (nfd P text)))"

text \<open>
  The host restricted to Basic Latin text, where NFD changes nothing, only \<open>A\<close>..\<open>Z\<close>
  have a lower case and the letters and numbers are \<open>0\<close>..\<open>9\<close>, \<open>A\<close>..\<open>Z\<close>, \<open>a\<close>..\<open>z\<close>.
  It is used to run the model on examples.
\<close>

definition asciiLower :: "uchar \<Rightarrow> uchar" where
  "asciiLower c = (if 65 \<le> c \<and> c \<le> 90 then c + 32 else c)"

definition asciiLetterOrNumber :: "uchar \<Rightarrow> bool" where
  "asciiLetterOrNumber c \<longleftrightarrow>
     (48 \<le> c \<and> c \<le> 57) \<or> (65 \<le> c \<and> c \<le> 90) \<or> (97 \<le> c \<and> c \<le> 122)"

definition basicLatin :: platform where
  "basicLatin =
     \<lparr> nfd = (\<lambda>s. s), toLowerCase = map asciiLower, isLetterOrNumber = asciiLetterOrNumber \<rparr>"

subsection \<open>Index entries\<close>

datatype IndexEntryType = Title | Heading | Block | Tag

record IndexEntry =
  type :: IndexEntryType
  notePath :: ustring
  noteTitle :: ustring
  target :: ustring
  displayText :: ustring
  score :: "real option"

text \<open>
  The comparison \<open>e.type === entry.type && e.notePath === entry.notePath && e.target === entry.target\<close>
  of \<open>addToIndex\<close> and \<open>getSuggestions\<close>, and the triple it compares.
\<close>

definition triple :: "IndexEntry \<Rightarrow> IndexEntryType \<times> ustring \<times> ustring" where
  "triple e = (type e, notePath e, target e)"

definition sameTriple :: "IndexEntry \<Rightarrow> IndexEntry \<Rightarrow> bool" where
  "sameTriple e entry \<longleftrightarrow>
     type e = type entry \<and> notePath e = notePath entry \<and> target e = target entry"

subsection \<open>The index: a JavaScript \<open>Map\<close> in insertion order\<close>

text \<open>
  \<open>Map<string, IndexEntry[]>\<close> is a list of key/bucket pairs in insertion order.
  \<open>set\<close> on a key that is present replaces its value where it stands, \<open>set\<close> on a
  new key appends, \<open>delete\<close> removes the key. Keys are distinct in every \<open>Map\<close>.
\<close>

type_synonym index = "(ustring \<times> IndexEntry list) list"

definition Map_get :: "index \<Rightarrow> ustring \<Rightarrow> IndexEntry list option" where
  "Map_get idx k = map_of idx k"

primrec Map_set :: "ustring \<Rightarrow> IndexEntry list \<Rightarrow> index \<Rightarrow> index" where
  "Map_set k v [] = [(k, v)]"
| "Map_set k v (p # ps) = (if fst p = k then (k, v) # ps else p # Map_set k v ps)"

definition Map_delete :: "ustring \<Rightarrow> index \<Rightarrow> index" where
  "Map_delete k idx = filter (\<lambda>p. fst p \<noteq> k) idx"

definition wellFormed :: "index \<Rightarrow> bool" where
  "wellFormed idx \<longleftrightarrow> distinct (map fst idx)"

text \<open>
  \<open>addToIndex(key, entry)\<close>: \<open>this.index.get(normalizedKey) || []\<close>, the push guarded
  by \<open>some\<close>, and the \<open>set\<close>.
\<close>

definition addToIndex :: "platform \<Rightarrow> index \<Rightarrow> ustring \<Rightarrow> IndexEntry \<Rightarrow> index" where
  "addToIndex P idx key entry =
     (let normalizedKey = normalizeText P key;
          entries = (case Map_get idx normalizedKey of Some es \<Rightarrow> es | None \<Rightarrow> []);
          entries' = (if \<not> list_ex (\<lambda>e. sameTriple e entry) entries
                      then entries @ [entry] else entries)
      in Map_set normalizedKey entries' idx)"

text \<open>The bucket under a key (empty when the key is absent).\<close>

definition bucket :: "index \<Rightarrow> ustring \<Rightarrow> IndexEntry list" where
  "bucket idx k = (case Map_get idx k of Some es \<Rightarrow> es | None \<Rightarrow> [])"

text \<open>No two entries of one bucket share the triple.\<close>

definition bucketsUnique :: "index \<Rightarrow> bool" where
  "bucketsUnique idx \<longleftrightarrow> list_all (\<lambda>p. distinct (map triple (snd p))) idx"

text \<open>A sequence of insertions, each a key and an entry.\<close>

definition addAll :: "platform \<Rightarrow> index \<Rightarrow> (ustring \<times> IndexEntry) list \<Rightarrow> index" where
  "addAll P idx ins = foldl (\<lambda>i ke. addToIndex P i (fst ke) (snd ke)) idx ins"

subsection \<open>Indexing a note\<close>

record TFile =
  path :: ustring
  basename :: ustring
  extension :: ustring

text \<open>
  What \<open>indexFile\<close> reads of \<open>metadataCache.getFileCache(file)\<close>: the front matter
  tags, an array or a text with commas; the headings; the ids of the sections, where a
  section may have none.
\<close>

datatype frontmatterTags = TagArray "ustring list" | TagText ustring

record CachedMetadata =
  tags :: "frontmatterTags option"
  headings :: "ustring list option"
  sections :: "ustring option list option"

text \<open>\<open>String.prototype.trim\<close> and \<open>split(',')\<close>.\<close>

definition isSpaceChar :: "uchar \<Rightarrow> bool" where
  "isSpaceChar x \<longleftrightarrow> (9 \<le> x \<and> x \<le> 13) \<or> x = 32 \<or> x = 0xA0 \<or> x = 0x1680
          \<or> (0x2000 \<le> x \<and> x \<le> 0x200A) \<or> x = 0x2028 \<or> x = 0x2029 \<or> x = 0x202F
          \<or> x = 0x205F \<or> x = 0x3000 \<or> x = 0xFEFF"

definition trim :: "ustring \<Rightarrow> ustring" where
  "trim s = rev (dropWhile isSpaceChar (rev (dropWhile isSpaceChar s)))"

primrec splitComma :: "ustring \<Rightarrow> ustring \<Rightarrow> ustring list" where
  "splitComma acc [] = [rev acc]"
| "splitComma acc (c # cs) =
     (if c = 44 then rev acc # splitComma [] cs else splitComma (c # acc) cs)"

text \<open>
  The calls of \<open>addToIndex\<close> that \<open>indexFile\<close> makes for a note, in their order: the
  title, the tags, the headings, the blocks. \<open>if (metadata?.frontmatter?.tags)\<close> skips
  an empty text but not an empty array; \<open>if (section.id)\<close> skips an empty id.
\<close>

definition tagList :: "frontmatterTags option \<Rightarrow> ustring list" where
  "tagList t =
     (case t of
        None \<Rightarrow> []
      | Some (TagArray a) \<Rightarrow> a
      | Some (TagText x) \<Rightarrow> if x = [] then [] else splitComma [] x)"

definition insertions :: "TFile \<Rightarrow> CachedMetadata option \<Rightarrow> (ustring \<times> IndexEntry) list" where
  "insertions file metadata =
     (let noteTitle = basename file;
          notePath = path file
      in [(noteTitle, \<lparr> type = Title, notePath = notePath, noteTitle = noteTitle,
             target = noteTitle, displayText = noteTitle, score = None \<rparr>)]
         @ map (\<lambda>tag. let cleanTag = trim tag
                       in (cleanTag, \<lparr> type = Tag, notePath = notePath, noteTitle = noteTitle,
                             target = cleanTag, displayText = ustr ''#'' @ cleanTag, score = None \<rparr>))
             (case metadata of None \<Rightarrow> [] | Some m \<Rightarrow> tagList (tags m))
         @ map (\<lambda>heading. (heading, \<lparr> type = Heading, notePath = notePath, noteTitle = noteTitle,
                             target = heading, displayText = noteTitle @ ustr '' > '' @ heading,
                             score = None \<rparr>))
             (case metadata of None \<Rightarrow> [] | Some m \<Rightarrow> (case headings m of None \<Rightarrow> [] | Some hs \<Rightarrow> hs))
         @ map (\<lambda>blockId. (blockId, \<lparr> type = Block, notePath = notePath, noteTitle = noteTitle,
                        target = blockId, displayText = noteTitle @ ustr '' > #'' @ blockId,
                        score = None \<rparr>))
             (case metadata of None \<Rightarrow> []
              | Some m \<Rightarrow> (case sections m of None \<Rightarrow> []
                  | Some ss \<Rightarrow>
                      concat (map (\<lambda>i. case i of None \<Rightarrow> []
                                        | Some blockId \<Rightarrow> if blockId = [] then [] else [blockId]) ss))))"

definition indexFile ::
  "platform \<Rightarrow> (TFile \<Rightarrow> CachedMetadata option) \<Rightarrow> index \<Rightarrow> TFile \<Rightarrow> index" where
  "indexFile P getFileCache idx file =
     (if extension file \<noteq> ustr ''md'' then idx
      else addAll P idx (insertions file (getFileCache file)))"

subsection \<open>Removing and renaming a note\<close>

text \<open>
  \<open>deleteFromIndex(file)\<close>: the loop over \<open>this.index.entries()\<close> visits every pair of
  the map once; \<open>set\<close> on the key being visited and \<open>delete\<close> of it do not disturb the
  iteration.
\<close>

definition deleteFromIndex :: "index \<Rightarrow> TFile \<Rightarrow> index" where
  "deleteFromIndex idx file =
     foldl (\<lambda>i (key, entries).
              let filtered = filter (\<lambda>entry. notePath entry \<noteq> path file) entries
              in if length filtered > 0 then Map_set key filtered i else Map_delete key i)
       idx idx"

text \<open>\<open>renameInIndex(file, oldPath)\<close>: the spread \<open>{ ...entry, notePath, noteTitle }\<close>.\<close>

definition renameEntry :: "TFile \<Rightarrow> ustring \<Rightarrow> IndexEntry \<Rightarrow> IndexEntry" where
  "renameEntry file oldPath entry =
     (if notePath entry = oldPath
      then entry\<lparr>notePath := path file, noteTitle := basename file\<rparr>
      else entry)"

definition renameInIndex :: "index \<Rightarrow> TFile \<Rightarrow> ustring \<Rightarrow> index" where
  "renameInIndex idx file oldPath =
     foldl (\<lambda>i (key, entries). Map_set key (map (renameEntry file oldPath) entries) i) idx idx"

text \<open>
  Removal in the words of the specification: every bucket loses the entries of the note,
  and a bucket left empty goes with its key.
\<close>

definition purge :: "ustring \<Rightarrow> index \<Rightarrow> index" where
  "purge p idx =
     filter (\<lambda>kv. snd kv \<noteq> [])
       (map (\<lambda>kv. (fst kv, filter (\<lambda>entry. notePath entry \<noteq> p) (snd kv))) idx)"

subsection \<open>The matcher\<close>

text \<open>\<open>Array.prototype.findIndex\<close>; \<open>None\<close> is its \<open>-1\<close>.\<close>

primrec findIndex :: "('a \<Rightarrow> bool) \<Rightarrow> 'a list \<Rightarrow> nat option" where
  "findIndex p [] = None"
| "findIndex p (x # xs) = (if p x then Some 0 else map_option Suc (findIndex p xs))"

text \<open>\<open>textLower.indexOf(char, searchIndex)\<close>; \<open>None\<close> is its \<open>-1\<close>.\<close>

definition indexOf :: "ustring \<Rightarrow> uchar \<Rightarrow> nat \<Rightarrow> nat option" where
  "indexOf s c searchIndex =
     map_option (\<lambda>i. searchIndex + i) (findIndex (\<lambda>x. x = c) (drop searchIndex s))"

text \<open>The loop \<open>for (const char of queryChars)\<close> of \<open>fuzzyMatch\<close>.\<close>

fun fuzzyLoop :: "ustring \<Rightarrow> ustring \<Rightarrow> nat \<Rightarrow> bool" where
  "fuzzyLoop [] textLower searchIndex = True"
| "fuzzyLoop (char # queryChars) textLower searchIndex =
     (case indexOf textLower char searchIndex of
        None \<Rightarrow> False
      | Some foundIndex \<Rightarrow> fuzzyLoop queryChars textLower (foundIndex + 1))"

definition fuzzyMatch :: "platform \<Rightarrow> ustring \<Rightarrow> ustring \<Rightarrow> bool" where
  "fuzzyMatch P query text = fuzzyLoop (toLowerCase P query) (toLowerCase P text) 0"

text \<open>\<open>key.startsWith(normalizedQuery)\<close>.\<close>

definition startsWith :: "ustring \<Rightarrow> ustring \<Rightarrow> bool" where
  "startsWith key q \<longleftrightarrow> take (length q) key = q"

text \<open>The two passes of \<open>getSuggestions\<close> over \<open>this.index.entries()\<close>.\<close>

definition exactMatches :: "platform \<Rightarrow> index \<Rightarrow> ustring \<Rightarrow> IndexEntry list" where
  "exactMatches P idx normalizedQuery =
     concat (map (\<lambda>(key, entries).
                    if startsWith key normalizedQuery
                    then map (\<lambda>e. e\<lparr>score := Some 0\<rparr>) entries else []) idx)"

definition fuzzyMatches :: "platform \<Rightarrow> index \<Rightarrow> ustring \<Rightarrow> IndexEntry list" where
  "fuzzyMatches P idx normalizedQuery =
     concat (map (\<lambda>(key, entries).
                    if fuzzyMatch P normalizedQuery key
                    then map (\<lambda>e. e\<lparr>score := Some (1 / 2)\<rparr>) entries else []) idx)"

text \<open>
  \<open>allMatches.filter((match, index, self) => index === self.findIndex(m => ...))\<close>.
\<close>

definition uniqueMatches :: "IndexEntry list \<Rightarrow> IndexEntry list" where
  "uniqueMatches allMatches =
     map snd (filter (\<lambda>(index, match).
                        Some index = findIndex (\<lambda>m. sameTriple m match) allMatches)
                (enumerate 0 allMatches))"

definition getSuggestions :: "platform \<Rightarrow> index \<Rightarrow> ustring \<Rightarrow> IndexEntry list" where
  "getSuggestions P idx query =
     (let normalizedQuery = normalizeText P query
      in if normalizedQuery = [] then []
         else take 100 (uniqueMatches (exactMatches P idx normalizedQuery
                                        @ fuzzyMatches P idx normalizedQuery)))"

text \<open>
  Deduplication in the words of the specification: walk the list and keep an entry
  when its triple has not been seen yet.
\<close>

primrec keepFirst :: "(IndexEntryType \<times> ustring \<times> ustring) set \<Rightarrow> IndexEntry list \<Rightarrow> IndexEntry list" where
  "keepFirst seen [] = []"
| "keepFirst seen (e # es) =
     (if triple e \<in> seen then keepFirst seen es else e # keepFirst (insert (triple e) seen) es)"

subsection \<open>The sentence around the cursor\<close>

text \<open>
  \<open>line[i]\<close> is \<open>undefined\<close> outside the line, and a regular expression tested on
  \<open>undefined\<close> tests the text \<open>undefined\<close>, which holds neither a terminator nor a
  white space character.
\<close>

definition charAt :: "ustring \<Rightarrow> nat \<Rightarrow> uchar option" where
  "charAt line i = (if i < length line then Some (line ! i) else None)"

definition isTerminator :: "uchar option \<Rightarrow> bool" where
  "isTerminator c = (case c of None \<Rightarrow> False | Some x \<Rightarrow> x \<in> set (ustr ''.!?''))"

text \<open>The class \<open>\s\<close>: the white space and line terminators that \<open>trim\<close> removes.\<close>

definition isWhiteSpace :: "uchar option \<Rightarrow> bool" where
  "isWhiteSpace c = (case c of None \<Rightarrow> False | Some x \<Rightarrow> isSpaceChar x)"

text \<open>
  \<open>for (let i = cursor.ch - 1; i >= 0; i--)\<close>: the argument is \<open>i + 1\<close>; the result is
  \<open>sentenceStart\<close>, which stays \<open>0\<close> when the loop ends without \<open>break\<close>.
\<close>

primrec scanBack :: "ustring \<Rightarrow> nat \<Rightarrow> nat" where
  "scanBack line 0 = 0"
| "scanBack line (Suc i) = (if isTerminator (charAt line i) then i + 1 else scanBack line i)"

text \<open>
  \<open>for (let i = cursor.ch; i < line.length; i++)\<close>: the result is \<open>sentenceEnd\<close>, which
  stays \<open>line.length\<close> when the loop ends without \<open>break\<close>.
\<close>

function scanForward :: "ustring \<Rightarrow> nat \<Rightarrow> nat" where
  "scanForward line i =
     (if i < length line
      then (if isTerminator (charAt line i) then i else scanForward line (i + 1))
      else length line)"
  by pat_completeness auto
termination
  by (relation "measure (\<lambda>(line, i). length line - i)") auto

declare scanForward.simps [simp del]

text \<open>\<open>while (sentenceStart < sentenceEnd && /\s/.test(line[sentenceStart])) sentenceStart++\<close>\<close>

function trimStart :: "ustring \<Rightarrow> nat \<Rightarrow> nat \<Rightarrow> nat" where
  "trimStart line sentenceStart sentenceEnd =
     (if sentenceStart < sentenceEnd \<and> isWhiteSpace (charAt line sentenceStart)
      then trimStart line (sentenceStart + 1) sentenceEnd
      else sentenceStart)"
  by pat_completeness auto
termination
  by (relation "measure (\<lambda>(line, s, e). e - s)") auto

declare trimStart.simps [simp del]

text \<open>\<open>while (sentenceEnd > sentenceStart && /\s/.test(line[sentenceEnd - 1])) sentenceEnd--\<close>\<close>

function trimEnd :: "ustring \<Rightarrow> nat \<Rightarrow> nat \<Rightarrow> nat" where
  "trimEnd line sentenceStart sentenceEnd =
     (if sentenceEnd > sentenceStart \<and> isWhiteSpace (charAt line (sentenceEnd - 1))
      then trimEnd line sentenceStart (sentenceEnd - 1)
      else sentenceEnd)"
  by pat_completeness auto
termination
  by (relation "measure (\<lambda>(line, s, e). e - s)") auto

declare trimEnd.simps [simp del]

text \<open>\<open>String.prototype.substring\<close>: the bounds are swapped when out of order.\<close>

definition substring :: "ustring \<Rightarrow> nat \<Rightarrow> nat \<Rightarrow> ustring" where
  "substring s a b = take (max a b - min a b) (drop (min a b) s)"

text \<open>
  The sentence bounds \<open>(sentenceStart, sentenceEnd)\<close> of \<open>AutoLinkerSuggest.onTrigger\<close>
  (the helper \<open>scanForPhrase\<close> computes the same).
\<close>

definition onTrigger_bounds :: "ustring \<Rightarrow> nat \<Rightarrow> nat \<times> nat" where
  "onTrigger_bounds line ch =
     (let sentenceStart = scanBack line ch;
          sentenceEnd = scanForward line ch;
          sentenceStart = trimStart line sentenceStart sentenceEnd;
          sentenceEnd = trimEnd line sentenceStart sentenceEnd
      in (sentenceStart, sentenceEnd))"

text \<open>The sentence bounds of \<open>runQuickLink\<close>: there is no second \<open>while\<close> loop.\<close>

definition runQuickLink_bounds :: "ustring \<Rightarrow> nat \<Rightarrow> nat \<times> nat" where
  "runQuickLink_bounds line ch =
     (let sentenceStart = scanBack line ch;
          sentenceEnd = scanForward line ch;
          sentenceStart = trimStart line sentenceStart sentenceEnd
      in (sentenceStart, sentenceEnd))"

definition onTrigger_sentence :: "ustring \<Rightarrow> nat \<Rightarrow> ustring" where
  "onTrigger_sentence line ch =
     substring line (fst (onTrigger_bounds line ch)) (snd (onTrigger_bounds line ch))"

definition runQuickLink_sentence :: "ustring \<Rightarrow> nat \<Rightarrow> ustring" where
  "runQuickLink_sentence line ch =
     substring line (fst (runQuickLink_bounds line ch)) (snd (runQuickLink_bounds line ch))"

subsection \<open>Words and the word under the cursor\<close>

record Token =
  word :: ustring
  start :: nat
  end' :: nat

text \<open>
  \<open>wordsWithIndices.push({ word: match[0], start: match.index, end: match.index + match[0].length })\<close>
  for the matches of the word pattern, each the matched text and its index.
\<close>

definition pushToken :: "ustring \<times> nat \<Rightarrow> Token" where
  "pushToken m = \<lparr> word = fst m, start = snd m, end' = snd m + length (fst m) \<rparr>"

definition tokensOf :: "(ustring \<times> nat) list \<Rightarrow> Token list" where
  "tokensOf matches = map pushToken matches"

text \<open>
  \<open>cursorInSentence = cursor.ch - sentenceOffset\<close> is negative when trimming moved the
  start of the sentence past the cursor. The two \<open>findIndex\<close> calls that give
  \<open>cursorWordIdx\<close>:
\<close>

definition touches :: "int \<Rightarrow> Token \<Rightarrow> bool" where
  "touches cursorInSentence w \<longleftrightarrow>
     cursorInSentence \<ge> int (start w) \<and> cursorInSentence \<le> int (end' w)"

definition findCursorWord :: "Token list \<Rightarrow> int \<Rightarrow> nat option" where
  "findCursorWord wordsWithIndices cursorInSentence =
     (case findIndex (touches cursorInSentence) wordsWithIndices of
        Some i \<Rightarrow> Some i
      | None \<Rightarrow> findIndex (\<lambda>w. cursorInSentence = int (end' w)) wordsWithIndices)"

subsection \<open>Candidate phrases\<close>

text \<open>
  The two nested loops of \<open>onTrigger\<close> and \<open>runQuickLink\<close>, \<open>span\<close> from the number of
  words down to 1 and \<open>offset\<close> from 0 to that number minus \<open>span\<close>: the pairs
  \<open>(startIdx, endIdx)\<close> that pass the \<open>continue\<close> guard, in the order of the iterations.
\<close>

definition phraseSpans :: "nat \<Rightarrow> nat \<Rightarrow> (nat \<times> nat) list" where
  "phraseSpans n cursorWordIdx =
     concat (map (\<lambda>span.
               concat (map (\<lambda>offset.
                         let startIdx = offset; endIdx = startIdx + span - 1
                         in if cursorWordIdx < startIdx \<or> cursorWordIdx > endIdx then []
                            else [(startIdx, endIdx)])
                       [0..<n - span + 1]))
            (rev [1..<n + 1]))"

text \<open>
  The order of the specification on candidate spans: more words first and, among spans
  with the same number of words, the smaller start index first.
\<close>

definition spanLength :: "nat \<times> nat \<Rightarrow> nat" where
  "spanLength sp = snd sp + 1 - fst sp"

definition rankedBefore :: "nat \<times> nat \<Rightarrow> nat \<times> nat \<Rightarrow> bool" where
  "rankedBefore a b \<longleftrightarrow>
     spanLength a > spanLength b \<or> (spanLength a = spanLength b \<and> fst a < fst b)"

text \<open>The candidates of one iteration of the outer loop.\<close>

definition spansOfLength :: "nat \<Rightarrow> nat \<Rightarrow> nat \<Rightarrow> (nat \<times> nat) list" where
  "spansOfLength n cw len =
     map (\<lambda>offset. (offset, offset + len - 1))
       (filter (\<lambda>offset. \<not> (cw < offset \<or> cw > offset + len - 1)) [0..<n - len + 1])"

definition phraseOf :: "ustring \<Rightarrow> Token list \<Rightarrow> nat \<times> nat \<Rightarrow> ustring" where
  "phraseOf sentence wordsWithIndices sp =
     substring sentence (start (wordsWithIndices ! fst sp)) (end' (wordsWithIndices ! snd sp))"

record Replacement =
  startCh :: nat
  endCh :: nat
  content :: ustring

text \<open>
  \<open>onTrigger\<close> returns at the first candidate with a suggestion; the record holds the
  range and the query.
\<close>

definition onTrigger_phrase ::
  "platform \<Rightarrow> index \<Rightarrow> ustring \<Rightarrow> nat \<Rightarrow> Token list \<Rightarrow> nat \<Rightarrow> Replacement option" where
  "onTrigger_phrase P idx sentence sentenceOffset wordsWithIndices cursorWordIdx =
     map_option
       (\<lambda>sp. \<lparr> startCh = sentenceOffset + start (wordsWithIndices ! fst sp),
                endCh = sentenceOffset + end' (wordsWithIndices ! snd sp),
                content = phraseOf sentence wordsWithIndices sp \<rparr>)
       (List.find (\<lambda>sp. length (getSuggestions P idx (phraseOf sentence wordsWithIndices sp)) > 0)
          (phraseSpans (length wordsWithIndices) cursorWordIdx))"

subsection \<open>The text of a link\<close>

text \<open>The \<open>switch\<close> of \<open>selectSuggestion\<close>.\<close>

definition selectSuggestion_linkText :: "IndexEntry \<Rightarrow> ustring \<Rightarrow> ustring" where
  "selectSuggestion_linkText item query =
     (case type item of
        Title \<Rightarrow> ustr ''[['' @ target item @ ustr ''|'' @ query @ ustr '']]''
      | Heading \<Rightarrow> ustr ''[['' @ noteTitle item @ ustr ''#'' @ target item @ ustr ''|'' @ query @ ustr '']]''
      | Block \<Rightarrow> ustr ''[['' @ noteTitle item @ ustr ''#^'' @ target item @ ustr ''|'' @ query @ ustr '']]''
      | Tag \<Rightarrow> ustr ''[['' @ target item @ ustr ''|'' @ query @ ustr '']]'')"

text \<open>The three assignments to \<open>linkText\<close> in \<open>runQuickLink\<close>.\<close>

definition runQuickLink_linkText :: "IndexEntry \<Rightarrow> ustring \<Rightarrow> ustring" where
  "runQuickLink_linkText bestMatch phrase =
     (let linkText = ustr ''[['' @ target bestMatch @ ustr ''|'' @ phrase @ ustr '']]'';
          linkText = (if type bestMatch = Heading
                      then ustr ''[['' @ noteTitle bestMatch @ ustr ''#'' @ target bestMatch
                             @ ustr ''|'' @ phrase @ ustr '']]''
                      else linkText);
          linkText = (if type bestMatch = Block
                      then ustr ''[['' @ noteTitle bestMatch @ ustr ''#^'' @ target bestMatch
                             @ ustr ''|'' @ phrase @ ustr '']]''
                      else linkText)
      in linkText)"

text \<open>
  \<open>runQuickLink\<close> returns at the first candidate with a suggestion whose display text is
  the phrase up to case, and replaces the phrase by the link.
\<close>

definition runQuickLink_phrase ::
  "platform \<Rightarrow> index \<Rightarrow> ustring \<Rightarrow> nat \<Rightarrow> Token list \<Rightarrow> nat \<Rightarrow> Replacement option" where
  "runQuickLink_phrase P idx sentence sentenceOffset wordsWithIndices cursorWordIdx =
     (let bestMatch = (\<lambda>sp.
            List.find (\<lambda>s. toLowerCase P (displayText s)
                              = toLowerCase P (phraseOf sentence wordsWithIndices sp))
              (getSuggestions P idx (phraseOf sentence wordsWithIndices sp)))
      in case List.find (\<lambda>sp. bestMatch sp \<noteq> None)
                (phraseSpans (length wordsWithIndices) cursorWordIdx) of
           None \<Rightarrow> None
         | Some sp \<Rightarrow>
             map_option
               (\<lambda>m. \<lparr> startCh = sentenceOffset + start (wordsWithIndices ! fst sp),
                       endCh = sentenceOffset + end' (wordsWithIndices ! snd sp),
                       content = runQuickLink_linkText m (phraseOf sentence wordsWithIndices sp) \<rparr>)
               (bestMatch sp))"

subsection \<open>The debounced update\<close>

text \<open>
  The plugin keeps one field \<open>debounceTimeout\<close>. The host keeps the timers that have not
  fired yet, each with the file its callback closes over, and numbers them from 1.
  \<open>reindexed\<close> records the runs of the callback
  \<open>() => { this.deleteFromIndex(file); this.indexFile(file); }\<close>, oldest first.
\<close>

record scheduler =
  debounceTimeout :: "nat option"
  timers :: "(nat \<times> TFile) list"
  nextTimer :: nat
  reindexed :: "TFile list"

definition initial :: scheduler where
  "initial = \<lparr> debounceTimeout = None, timers = [], nextTimer = 1, reindexed = [] \<rparr>"

definition clearTimeout :: "nat \<Rightarrow> scheduler \<Rightarrow> scheduler" where
  "clearTimeout t s = s\<lparr>timers := filter (\<lambda>p. fst p \<noteq> t) (timers s)\<rparr>"

definition debouncedIndexUpdate :: "TFile \<Rightarrow> scheduler \<Rightarrow> scheduler" where
  "debouncedIndexUpdate file s =
     (let s = (case debounceTimeout s of
                 Some t \<Rightarrow> if t \<noteq> 0 then clearTimeout t s else s
               | None \<Rightarrow> s);
          t = nextTimer s
      in s\<lparr>timers := timers s @ [(t, file)], nextTimer := t + 1, debounceTimeout := Some t\<rparr>)"

text \<open>Timer \<open>t\<close> reaches its 300 ms: its callback runs if it has not been cleared.\<close>

definition elapse :: "nat \<Rightarrow> scheduler \<Rightarrow> scheduler" where
  "elapse t s =
     (case map_of (timers s) t of
        None \<Rightarrow> s
      | Some file \<Rightarrow> s\<lparr>timers := filter (\<lambda>p. fst p \<noteq> t) (timers s),
                        reindexed := reindexed s @ [file]\<rparr>)"

datatype event = Changed TFile | Elapsed nat

fun step :: "scheduler \<Rightarrow> event \<Rightarrow> scheduler" where
  "step s (Changed file) = debouncedIndexUpdate file s"
| "step s (Elapsed t) = elapse t s"

definition run :: "scheduler \<Rightarrow> event list \<Rightarrow> scheduler" where
  "run s evs = foldl step s evs"

subsection \<open>Example data\<close>

definition parisEntry :: IndexEntry where
  "parisEntry = \<lparr> type = Title, notePath = ustr ''Paris.md'', noteTitle = ustr ''Paris'',
       target = ustr ''Paris'', displayText = ustr ''Paris'', score = None \<rparr>"

definition pragueEntry :: IndexEntry where
  "pragueEntry = \<lparr> type = Title, notePath = ustr ''Prague.md'', noteTitle = ustr ''Prague'',
       target = ustr ''Prague'', displayText = ustr ''Prague'', score = None \<rparr>"

definition travelEntry :: IndexEntry where
  "travelEntry = \<lparr> type = Tag, notePath = ustr ''Trip.md'', noteTitle = ustr ''Trip'',
       target = ustr ''travel'', displayText = ustr ''#travel'', score = None \<rparr>"

definition exampleIndex :: index where
  "exampleIndex = [(ustr ''paris'', [parisEntry]), (ustr ''prague'', [pragueEntry])]"

definition parisFile :: TFile where
  "parisFile = \<lparr> path = ustr ''Paris.md'', basename = ustr ''Paris'', extension = ustr ''md'' \<rparr>"

definition oldTitleEntry :: IndexEntry where
  "oldTitleEntry = \<lparr> type = Title, notePath = ustr ''Old.md'', noteTitle = ustr ''Old'',
       target = ustr ''Old'', displayText = ustr ''Old'', score = None \<rparr>"

definition oldHeadingEntry :: IndexEntry where
  "oldHeadingEntry = \<lparr> type = Heading, notePath = ustr ''Old.md'', noteTitle = ustr ''Old'',
       target = ustr ''Intro'', displayText = ustr ''Old > Intro'', score = None \<rparr>"

definition oldIndex :: index where
  "oldIndex = [(ustr ''old'', [oldTitleEntry]), (ustr ''intro'', [oldHeadingEntry])]"

definition oldFile :: TFile where
  "oldFile = \<lparr> path = ustr ''Old.md'', basename = ustr ''Old'', extension = ustr ''md'' \<rparr>"

definition introCache :: "TFile \<Rightarrow> CachedMetadata option" where
  "introCache file = Some \<lparr> tags = None, headings = Some [ustr ''Intro''], sections = None \<rparr>"

definition newFile :: TFile where
  "newFile = \<lparr> path = ustr ''New.md'', basename = ustr ''New'', extension = ustr ''md'' \<rparr>"

definition fileA :: TFile where
  "fileA = \<lparr> path = ustr ''a.md'', basename = ustr ''a'', extension = ustr ''md'' \<rparr>"

definition fileB :: TFile where
  "fileB = \<lparr> path = ustr ''b.md'', basename = ustr ''b'', extension = ustr ''md'' \<rparr>"

definition exampleTokens :: "Token list" where
  "exampleTokens = tokensOf [(ustr ''New'', 0), (ustr ''York'', 4), (ustr ''City'', 9)]"

section \<open>Properties\<close>

subsection \<open>The \<open>Map\<close> operations\<close>

lemma sameTriple_iff: "sameTriple e entry \<longleftrightarrow> triple e = triple entry"
  by (simp add: sameTriple_def triple_def)

lemma Map_get_Map_set: "Map_get (Map_set k v idx) k' = (if k' = k then Some v else Map_get idx k')"
  by (induction idx) (auto simp: Map_get_def)

lemma Map_set_same: "Map_get idx k = Some v \<Longrightarrow> Map_set k v idx = idx"
  by (induction idx) (auto simp: Map_get_def split: if_splits)

lemma keys_Map_set:
  "map fst (Map_set k v idx) = (if k \<in> set (map fst idx) then map fst idx else map fst idx @ [k])"
  by (induction idx) auto

lemma wellFormed_Map_set: "wellFormed idx \<Longrightarrow> wellFormed (Map_set k v idx)"
  by (simp add: wellFormed_def keys_Map_set)

lemma wellFormed_Map_delete: "wellFormed idx \<Longrightarrow> wellFormed (Map_delete k idx)"
  by (simp add: wellFormed_def Map_delete_def distinct_map_filter)

lemma set_Map_set: "set (Map_set k v idx) \<subseteq> insert (k, v) (set idx)"
  by (induction idx) auto

lemma bucketsUnique_Map_set:
  "bucketsUnique idx \<Longrightarrow> distinct (map triple v) \<Longrightarrow> bucketsUnique (Map_set k v idx)"
  using set_Map_set [of k v idx] by (auto simp: bucketsUnique_def list_all_iff)

lemma Map_get_in_set: "Map_get idx k = Some es \<Longrightarrow> (k, es) \<in> set idx"
  by (simp add: Map_get_def map_of_SomeD)

subsection \<open>Insertion keeps the buckets free of duplicates\<close>

lemma bucket_distinct: "bucketsUnique idx \<Longrightarrow> distinct (map triple (bucket idx k))"
proof (cases "Map_get idx k")
  case None
  then show ?thesis by (simp add: bucket_def)
next
  case (Some es)
  then have "(k, es) \<in> set idx" by (rule Map_get_in_set)
  moreover assume "bucketsUnique idx"
  ultimately have "distinct (map triple es)"
    by (force simp: bucketsUnique_def list_all_iff)
  with Some show ?thesis by (simp add: bucket_def)
qed

lemma addToIndex_bucket:
  "addToIndex P idx key entry =
     Map_set (normalizeText P key)
       (if \<not> list_ex (\<lambda>e. sameTriple e entry) (bucket idx (normalizeText P key))
        then bucket idx (normalizeText P key) @ [entry]
        else bucket idx (normalizeText P key)) idx"
  by (simp add: addToIndex_def bucket_def Let_def)

lemma addToIndex_present:
  assumes "list_ex (\<lambda>e. sameTriple e entry) (bucket idx (normalizeText P key))"
  shows "addToIndex P idx key entry = idx"
proof -
  from assms obtain es where "Map_get idx (normalizeText P key) = Some es"
    by (cases "Map_get idx (normalizeText P key)") (auto simp: bucket_def)
  with assms show ?thesis
    by (simp add: addToIndex_def bucket_def Map_set_same)
qed

lemma addToIndex_bucketsUnique:
  assumes "bucketsUnique idx"
  shows "bucketsUnique (addToIndex P idx key entry)"
proof -
  let ?k = "normalizeText P key"
  have d: "distinct (map triple (bucket idx ?k))"
    using assms by (rule bucket_distinct)
  have "distinct (map triple
          (if \<not> list_ex (\<lambda>e. sameTriple e entry) (bucket idx ?k)
           then bucket idx ?k @ [entry] else bucket idx ?k))"
    using d by (auto simp: list_ex_iff sameTriple_iff)
  then show ?thesis
    using assms unfolding addToIndex_bucket by (rule bucketsUnique_Map_set [rotated])
qed

lemma addToIndex_wellFormed: "wellFormed idx \<Longrightarrow> wellFormed (addToIndex P idx key entry)"
  by (simp add: addToIndex_def Let_def wellFormed_Map_set)

lemma addAll_bucketsUnique: "bucketsUnique idx \<Longrightarrow> bucketsUnique (addAll P idx ins)"
  unfolding addAll_def
  by (induction ins arbitrary: idx) (simp_all add: addToIndex_bucketsUnique)

lemma indexFile_bucketsUnique:
  "bucketsUnique idx \<Longrightarrow> bucketsUnique (indexFile P getFileCache idx file)"
  by (simp add: indexFile_def addAll_bucketsUnique)

text \<open>
  Claim C5. Inserting an entry whose triple (kind, sourceId, target) already occurs in
  the bucket of its key leaves the bucket, and the whole index, unchanged; an insertion
  keeps every bucket free of two entries with the same triple, so any sequence of
  insertions does, and starting from the empty index every bucket is free of them.
\<close>

theorem addToIndex_deduplicates:
  "(list_ex (\<lambda>e. triple e = triple entry) (bucket idx (normalizeText P key)) \<longrightarrow>
      addToIndex P idx key entry = idx \<and>
      bucket (addToIndex P idx key entry) (normalizeText P key) = bucket idx (normalizeText P key))
   \<and> (bucketsUnique idx \<longrightarrow> bucketsUnique (addToIndex P idx key entry))
   \<and> (bucketsUnique idx \<longrightarrow> bucketsUnique (addAll P idx ins))
   \<and> bucketsUnique (addAll P [] ins)"
proof -
  have "bucketsUnique []"
    by (simp add: bucketsUnique_def)
  then have "bucketsUnique (addAll P [] ins)"
    by (rule addAll_bucketsUnique)
  moreover have "list_ex (\<lambda>e. triple e = triple entry) (bucket idx (normalizeText P key)) \<longrightarrow>
      addToIndex P idx key entry = idx"
    using addToIndex_present [of entry idx P key] by (simp add: sameTriple_iff)
  ultimately show ?thesis
    by (auto simp: addToIndex_bucketsUnique addAll_bucketsUnique)
qed

theorem addToIndex_deduplicates_witness:
  "list_ex (\<lambda>e. triple e = triple parisEntry)
     (bucket exampleIndex (normalizeText basicLatin (ustr ''Paris'')))
   \<and> addToIndex basicLatin exampleIndex (ustr ''Paris'') parisEntry = exampleIndex
   \<and> bucketsUnique exampleIndex
   \<and> bucketsUnique (addAll basicLatin exampleIndex
        [(ustr ''Paris'', parisEntry), (ustr ''Travel'', travelEntry), (ustr ''Paris'', parisEntry)])"
proof -
  have present: "list_ex (\<lambda>e. triple e = triple parisEntry)
     (bucket exampleIndex (normalizeText basicLatin (ustr ''Paris'')))"
    by code_simp
  have unique: "bucketsUnique exampleIndex"
    by code_simp
  show ?thesis
    using present unique
      addToIndex_deduplicates [of parisEntry exampleIndex basicLatin "ustr ''Paris''"
        "[(ustr ''Paris'', parisEntry), (ustr ''Travel'', travelEntry), (ustr ''Paris'', parisEntry)]"]
    by blast
qed

subsection \<open>The word under the cursor\<close>

lemma findIndex_None_iff: "findIndex p xs = None \<longleftrightarrow> (\<forall>x\<in>set xs. \<not> p x)"
  by (induction xs) auto

lemma fallback_fails:
  assumes "\<forall>w\<in>set ts. start w \<le> end' w" and "findIndex (touches c) ts = None"
  shows "findIndex (\<lambda>w. c = int (end' w)) ts = None"
  using assms unfolding findIndex_None_iff touches_def by fastforce

lemma findCursorWord_primary:
  assumes "\<forall>w\<in>set ts. start w \<le> end' w"
  shows "findCursorWord ts c = findIndex (touches c) ts"
  using fallback_fails [OF assms] by (simp add: findCursorWord_def split: option.splits)

lemma tokensOf_ordered: "\<forall>w\<in>set (tokensOf ms). start w \<le> end' w"
  by (auto simp: tokensOf_def pushToken_def)

text \<open>
  Claim C10. The second \<open>findIndex\<close>, for a word whose end is the cursor offset, never
  changes the result. A word list is built from the matches of the word pattern, with
  \<open>end = start + length\<close>, so no word ends before it starts; for every such list and
  every cursor offset, when the first search (start \<le> cursor \<le> end) finds nothing the
  second finds nothing either, and the resolution equals the first search alone.
\<close>

theorem findCursorWord_fallback_redundant:
  "(findIndex (touches c) (tokensOf ms) = None \<longrightarrow>
      findIndex (\<lambda>w. c = int (end' w)) (tokensOf ms) = None)
   \<and> findCursorWord (tokensOf ms) c = findIndex (touches c) (tokensOf ms)
   \<and> ((\<forall>w\<in>set ts. start w \<le> end' w) \<longrightarrow>
        (findIndex (touches c) ts = None \<longrightarrow> findIndex (\<lambda>w. c = int (end' w)) ts = None)
        \<and> findCursorWord ts c = findIndex (touches c) ts)"
  using fallback_fails [of ts c] fallback_fails [OF tokensOf_ordered, of c ms]
    findCursorWord_primary [of ts c] findCursorWord_primary [OF tokensOf_ordered, of ms c]
  by blast

theorem findCursorWord_fallback_redundant_witness:
  "findIndex (touches 14) exampleTokens = None
   \<and> findIndex (\<lambda>w. 14 = int (end' w)) exampleTokens = None
   \<and> findCursorWord exampleTokens 14 = None
   \<and> list_all (\<lambda>w. start w \<le> end' w) exampleTokens
   \<and> findCursorWord exampleTokens 7 = Some 1
   \<and> findIndex (touches 7) exampleTokens = Some 1"
proof -
  have none: "findIndex (touches 14) exampleTokens = None"
    by code_simp
  have ordered: "\<forall>w\<in>set exampleTokens. start w \<le> end' w"
    by (simp add: exampleTokens_def tokensOf_ordered)
  have found: "findIndex (touches 7) exampleTokens = Some 1"
    by code_simp
  show ?thesis
    using none ordered found
      findCursorWord_fallback_redundant [of 14 "[(ustr ''New'', 0), (ustr ''York'', 4), (ustr ''City'', 9)]"
        exampleTokens]
      findCursorWord_fallback_redundant [of 7 "[(ustr ''New'', 0), (ustr ''York'', 4), (ustr ''City'', 9)]"
        exampleTokens]
    unfolding exampleTokens_def [symmetric] list_all_iff
    by simp
qed

subsection \<open>Candidate phrases, longest first\<close>

lemma concat_map_guard:
  "concat (map (\<lambda>x. if Q x then [] else [h x]) xs) = map h (filter (\<lambda>x. \<not> Q x) xs)"
  by (induction xs) auto

lemma phraseSpans_alt:
  "phraseSpans n cw = concat (map (spansOfLength n cw) (rev [1..<n + 1]))"
  by (simp only: phraseSpans_def spansOfLength_def [abs_def] Let_def concat_map_guard)

lemma set_spansOfLength:
  "0 < len \<Longrightarrow> len \<le> n \<Longrightarrow>
   set (spansOfLength n cw len) = {(s, e). s \<le> cw \<and> cw \<le> e \<and> e < n \<and> e + 1 - s = len}"
  by (auto simp: spansOfLength_def)

lemma set_phraseSpans: "set (phraseSpans n cw) = {(s, e). s \<le> cw \<and> cw \<le> e \<and> e < n}"
proof -
  have "set (rev [1..<n + 1]) = {1..n}"
    by auto
  then have "set (phraseSpans n cw) = (\<Union>len\<in>{1..n}. set (spansOfLength n cw len))"
    by (simp only: phraseSpans_alt set_concat set_map image_image)
  also have "\<dots> = (\<Union>len\<in>{1..n}. {(s, e). s \<le> cw \<and> cw \<le> e \<and> e < n \<and> e + 1 - s = len})"
    by (intro SUP_cong refl set_spansOfLength) auto
  also have "\<dots> = {(s, e). s \<le> cw \<and> cw \<le> e \<and> e < n}"
    by auto
  finally show ?thesis .
qed

lemma sorted_wrt_concat_map:
  "sorted_wrt R (concat (map f xs)) \<longleftrightarrow>
     (\<forall>x\<in>set xs. sorted_wrt R (f x)) \<and>
     sorted_wrt (\<lambda>x y. \<forall>a\<in>set (f x). \<forall>b\<in>set (f y). R a b) xs"
  by (induction xs) (auto simp: sorted_wrt_append)

lemma spanLength_spansOfLength:
  "0 < len \<Longrightarrow> a \<in> set (spansOfLength n cw len) \<Longrightarrow> spanLength a = len"
  by (auto simp: spansOfLength_def spanLength_def)

lemma sorted_spansOfLength: "0 < len \<Longrightarrow> sorted_wrt rankedBefore (spansOfLength n cw len)"
  unfolding spansOfLength_def sorted_wrt_map
  by (rule sorted_wrt_filter, rule sorted_wrt_mono_rel [OF _ sorted_wrt_upt])
     (auto simp: rankedBefore_def spanLength_def)

lemma sorted_phraseSpans: "sorted_wrt rankedBefore (phraseSpans n cw)"
proof -
  have "sorted_wrt (\<lambda>y x. \<forall>a\<in>set (spansOfLength n cw x). \<forall>b\<in>set (spansOfLength n cw y).
          rankedBefore a b) [1..<n + 1]"
    by (rule sorted_wrt_mono_rel [OF _ sorted_wrt_upt])
       (auto simp: rankedBefore_def dest!: spanLength_spansOfLength [rotated])
  then show ?thesis
    unfolding phraseSpans_alt sorted_wrt_concat_map sorted_wrt_rev
    by (auto intro: sorted_spansOfLength)
qed

lemma sorted_wrt_irrefl_distinct:
  "sorted_wrt R xs \<Longrightarrow> (\<And>x. \<not> R x x) \<Longrightarrow> distinct xs"
  by (induction xs) auto

lemma distinct_phraseSpans: "distinct (phraseSpans n cw)"
  by (rule sorted_wrt_irrefl_distinct [OF sorted_phraseSpans]) (simp add: rankedBefore_def)

lemma hd_phraseSpans: "cw < n \<Longrightarrow> hd (phraseSpans n cw) = (0, n - 1)"
  by (cases n) (auto simp: phraseSpans_alt spansOfLength_def)

text \<open>
  Claim C2. For every number of words \<open>n\<close> and every cursor word index \<open>cw\<close>, the
  candidates are exactly the spans \<open>(startIdx, endIdx)\<close> with
  \<open>startIdx \<le> cw \<le> endIdx < n\<close>, each once, in the order of strictly descending number
  of words and, for the same number of words, ascending start index; with three words
  and the cursor on the middle one the first candidate is the span of all three.
\<close>

theorem phraseSpans_longest_first:
  "set (phraseSpans n cw) = {(s, e). s \<le> cw \<and> cw \<le> e \<and> e < n}
   \<and> distinct (phraseSpans n cw)
   \<and> sorted_wrt rankedBefore (phraseSpans n cw)
   \<and> (cw < n \<longrightarrow> hd (phraseSpans n cw) = (0, n - 1))
   \<and> hd (phraseSpans 3 1) = (0, 2)"
  using hd_phraseSpans [of 1 3]
  by (simp add: set_phraseSpans distinct_phraseSpans sorted_phraseSpans hd_phraseSpans)

theorem phraseSpans_longest_first_witness:
  "(1::nat) < 3
   \<and> phraseSpans 3 1 = [(0, 2), (0, 1), (1, 2), (1, 1)]
   \<and> set (phraseSpans 3 1) = {(s, e). s \<le> 1 \<and> 1 \<le> e \<and> e < 3}
   \<and> sorted_wrt rankedBefore (phraseSpans 3 1)
   \<and> hd (phraseSpans 3 1) = (0, 3 - 1)"
proof -
  have "phraseSpans 3 1 = [(0, 2), (0, 1), (1, 2), (1, 1)]"
    by code_simp
  then show ?thesis
    using phraseSpans_longest_first [of 3 1] by simp
qed

subsection \<open>Removing a note\<close>

lemma Map_set_at:
  "k \<notin> fst ` set A \<Longrightarrow> Map_set k v (A @ (k, es) # B) = A @ (k, v) # B"
  by (induction A) auto

lemma Map_delete_at:
  assumes "distinct (map fst (A @ (k, es) # B))"
  shows "Map_delete k (A @ (k, es) # B) = A @ B"
proof -
  have "filter (\<lambda>p. fst p \<noteq> k) A = A" "filter (\<lambda>p. fst p \<noteq> k) B = B"
    using assms by (auto intro!: filter_True)
  then show ?thesis
    by (simp add: Map_delete_def)
qed

text \<open>
  The loop invariant: the pairs already visited, \<open>A\<close>, are in their final state and the
  pairs still to visit, \<open>R\<close>, are untouched.
\<close>

lemma deleteFromIndex_loop:
  "distinct (map fst (A @ R)) \<Longrightarrow>
   foldl (\<lambda>i (key, entries).
            let filtered = filter (\<lambda>entry. notePath entry \<noteq> p) entries
            in if length filtered > 0 then Map_set key filtered i else Map_delete key i)
     (A @ R) R = A @ purge p R"
proof (induction R arbitrary: A)
  case Nil
  then show ?case by (simp add: purge_def)
next
  case (Cons kv R)
  obtain k es where kv: "kv = (k, es)" by (cases kv)
  let ?f = "filter (\<lambda>entry. notePath entry \<noteq> p) es"
  show ?case
  proof (cases "?f = []")
    case True
    have "distinct (map fst (A @ R))"
      using Cons.prems by (simp add: kv)
    from Cons.IH [OF this] True Cons.prems show ?thesis
      by (simp add: kv Map_delete_at purge_def)
  next
    case False
    have d: "distinct (map fst ((A @ [(k, ?f)]) @ R))"
      using Cons.prems by (simp add: kv)
    have "k \<notin> fst ` set A"
      using Cons.prems by (auto simp: kv)
    with Cons.IH [OF d] False show ?thesis
      by (simp add: kv Map_set_at purge_def)
  qed
qed

lemma deleteFromIndex_purge:
  "wellFormed idx \<Longrightarrow> deleteFromIndex idx file = purge (path file) idx"
  using deleteFromIndex_loop [of "[]" idx "path file"]
  by (simp add: deleteFromIndex_def wellFormed_def)

lemma Map_get_purge:
  "wellFormed idx \<Longrightarrow>
   Map_get (purge p idx) k =
     (case Map_get idx k of
        None \<Rightarrow> None
      | Some es \<Rightarrow> if filter (\<lambda>entry. notePath entry \<noteq> p) es = [] then None
                   else Some (filter (\<lambda>entry. notePath entry \<noteq> p) es))"
  unfolding wellFormed_def Map_get_def purge_def
  by (induction idx) (auto simp: image_iff split: option.splits dest: map_of_SomeD)

lemma wellFormed_purge: "wellFormed idx \<Longrightarrow> wellFormed (purge p idx)"
  unfolding wellFormed_def purge_def
  by (simp add: distinct_map_filter comp_def)

lemma purge_nonempty: "list_all (\<lambda>kv. snd kv \<noteq> []) (purge p idx)"
  by (simp add: purge_def list_all_iff)

text \<open>
  Claim C6. For every index (a \<open>Map\<close>, so with distinct keys) and every note,
  \<open>deleteFromIndex\<close> leaves under each key exactly the entries of other notes, in their
  order, and drops every key whose bucket becomes empty: afterwards no key maps to an
  empty bucket, and a key whose entries all came from the removed note is absent.
\<close>

theorem deleteFromIndex_removes:
  assumes "wellFormed idx"
  shows "deleteFromIndex idx file = purge (path file) idx
    \<and> (\<forall>k. bucket (deleteFromIndex idx file) k
             = filter (\<lambda>entry. notePath entry \<noteq> path file) (bucket idx k))
    \<and> (\<forall>k. Map_get (deleteFromIndex idx file) k = None
             \<longleftrightarrow> list_all (\<lambda>entry. notePath entry = path file) (bucket idx k))
    \<and> list_all (\<lambda>kv. snd kv \<noteq> []) (deleteFromIndex idx file)
    \<and> wellFormed (deleteFromIndex idx file)"
proof -
  let ?keep = "\<lambda>entry. notePath entry \<noteq> path file"
  have eq: "deleteFromIndex idx file = purge (path file) idx"
    using assms by (rule deleteFromIndex_purge)
  have get: "Map_get (purge (path file) idx) k =
      (case Map_get idx k of None \<Rightarrow> None
       | Some es \<Rightarrow> if filter ?keep es = [] then None else Some (filter ?keep es))" for k
    using assms by (rule Map_get_purge)
  have "bucket (purge (path file) idx) k = filter ?keep (bucket idx k)" for k
    by (simp add: bucket_def get split: option.splits)
  moreover have "Map_get (purge (path file) idx) k = None
      \<longleftrightarrow> list_all (\<lambda>entry. notePath entry = path file) (bucket idx k)" for k
    by (auto simp: bucket_def get list_all_iff filter_empty_conv split: option.splits)
  ultimately show ?thesis
    using assms by (simp add: eq purge_nonempty wellFormed_purge)
qed

theorem deleteFromIndex_removes_witness:
  "wellFormed exampleIndex
   \<and> deleteFromIndex exampleIndex parisFile = [(ustr ''prague'', [pragueEntry])]
   \<and> Map_get (deleteFromIndex exampleIndex parisFile) (ustr ''paris'') = None
   \<and> bucket (deleteFromIndex exampleIndex parisFile) (ustr ''prague'') = [pragueEntry]"
proof -
  have wf: "wellFormed exampleIndex"
    by code_simp
  note removes = deleteFromIndex_removes [OF wf, of parisFile]
  from removes have "deleteFromIndex exampleIndex parisFile = purge (path parisFile) exampleIndex"
    by (rule conjunct1)
  also have "\<dots> = [(ustr ''prague'', [pragueEntry])]"
    by code_simp
  finally have a: "deleteFromIndex exampleIndex parisFile = [(ustr ''prague'', [pragueEntry])]" .
  from removes have "\<forall>k. Map_get (deleteFromIndex exampleIndex parisFile) k = None
      \<longleftrightarrow> list_all (\<lambda>entry. notePath entry = path parisFile) (bucket exampleIndex k)"
    by (rule conjunct1 [OF conjunct2 [OF conjunct2]])
  then have "Map_get (deleteFromIndex exampleIndex parisFile) (ustr ''paris'') = None
      \<longleftrightarrow> list_all (\<lambda>entry. notePath entry = path parisFile) (bucket exampleIndex (ustr ''paris''))"
    by (rule spec)
  moreover have "list_all (\<lambda>entry. notePath entry = path parisFile) (bucket exampleIndex (ustr ''paris''))"
    by code_simp
  ultimately have b: "Map_get (deleteFromIndex exampleIndex parisFile) (ustr ''paris'') = None"
    by (rule iffD2)
  from removes have "\<forall>k. bucket (deleteFromIndex exampleIndex parisFile) k
      = filter (\<lambda>entry. notePath entry \<noteq> path parisFile) (bucket exampleIndex k)"
    by (rule conjunct1 [OF conjunct2])
  then have "bucket (deleteFromIndex exampleIndex parisFile) (ustr ''prague'')
      = filter (\<lambda>entry. notePath entry \<noteq> path parisFile) (bucket exampleIndex (ustr ''prague''))"
    by (rule spec)
  also have "\<dots> = [pragueEntry]"
    by code_simp
  finally have c: "bucket (deleteFromIndex exampleIndex parisFile) (ustr ''prague'') = [pragueEntry]" .
  from wf a b c show ?thesis
    by (intro conjI)
qed

subsection \<open>Renaming a note\<close>

lemma renameInIndex_loop:
  "distinct (map fst (A @ R)) \<Longrightarrow>
   foldl (\<lambda>i (key, entries). Map_set key (map g entries) i) (A @ R) R
     = A @ map (\<lambda>kv. (fst kv, map g (snd kv))) R"
proof (induction R arbitrary: A)
  case Nil
  then show ?case by simp
next
  case (Cons kv R)
  obtain k es where kv: "kv = (k, es)" by (cases kv)
  have d: "distinct (map fst ((A @ [(k, map g es)]) @ R))"
    using Cons.prems by (simp add: kv)
  have "k \<notin> fst ` set A"
    using Cons.prems by (auto simp: kv)
  with Cons.IH [OF d] show ?case
    by (simp add: kv Map_set_at)
qed

text \<open>
  \<open>renameInIndex\<close> keeps every key and rewrites the entries of the note where they
  stand; of an entry it changes \<open>notePath\<close> and \<open>noteTitle\<close> only.
\<close>

lemma renameInIndex_map:
  "wellFormed idx \<Longrightarrow>
   renameInIndex idx file oldPath
     = map (\<lambda>kv. (fst kv, map (renameEntry file oldPath) (snd kv))) idx"
  using renameInIndex_loop [of "[]" idx "renameEntry file oldPath"]
  by (simp add: renameInIndex_def wellFormed_def)

lemma renameInIndex_keys:
  "wellFormed idx \<Longrightarrow> map fst (renameInIndex idx file oldPath) = map fst idx"
  by (simp add: renameInIndex_map comp_def)

lemma renameEntry_renamed:
  "notePath e = oldPath \<Longrightarrow>
   notePath (renameEntry file oldPath e) = path file
   \<and> noteTitle (renameEntry file oldPath e) = basename file"
  by (simp add: renameEntry_def)

lemma renameEntry_keeps:
  "target (renameEntry file oldPath e) = target e
   \<and> displayText (renameEntry file oldPath e) = displayText e
   \<and> type (renameEntry file oldPath e) = type e"
  by (simp add: renameEntry_def)

text \<open>
  Claim C3. After \<open>renameDocument\<close> a Title entry should have its target and display
  text follow the new title. \<open>indexFile\<close> builds for the note \<open>Old.md\<close> with one heading
  a Title entry with target and display text \<open>Old\<close>; after the rename to \<open>New.md\<close> that
  entry keeps both, under the key \<open>old\<close>, and only its path and note title have
  changed. Indexing \<open>New.md\<close> afresh gives target and display text \<open>New\<close> under the key
  \<open>new\<close>.
\<close>

theorem renameInIndex_title_target_stale:
  "indexFile basicLatin introCache [] oldFile = oldIndex
   \<and> renameInIndex oldIndex newFile (ustr ''Old.md'') =
     [(ustr ''old'',
        [\<lparr> type = Title, notePath = ustr ''New.md'', noteTitle = ustr ''New'',
            target = ustr ''Old'', displayText = ustr ''Old'', score = None \<rparr>]),
      (ustr ''intro'',
        [\<lparr> type = Heading, notePath = ustr ''New.md'', noteTitle = ustr ''New'',
            target = ustr ''Intro'', displayText = ustr ''Old > Intro'', score = None \<rparr>])]
   \<and> indexFile basicLatin introCache [] newFile =
     [(ustr ''new'',
        [\<lparr> type = Title, notePath = ustr ''New.md'', noteTitle = ustr ''New'',
            target = ustr ''New'', displayText = ustr ''New'', score = None \<rparr>]),
      (ustr ''intro'',
        [\<lparr> type = Heading, notePath = ustr ''New.md'', noteTitle = ustr ''New'',
            target = ustr ''Intro'', displayText = ustr ''New > Intro'', score = None \<rparr>])]"
  by code_simp

subsection \<open>The matcher: prefix results before fuzzy results\<close>

lemma findIndex_Some_split:
  "findIndex p xs = Some n \<Longrightarrow>
   n < length xs \<and> p (xs ! n) \<and> (\<forall>x\<in>set (take n xs). \<not> p x)"
proof (induction xs arbitrary: n)
  case Nil
  then show ?case by simp
next
  case (Cons x xs)
  show ?case
  proof (cases "p x")
    case True
    with Cons.prems show ?thesis by simp
  next
    case False
    with Cons.prems obtain m where m: "findIndex p xs = Some m" "n = Suc m"
      by auto
    from Cons.IH [OF m(1)] False show ?thesis
      by (simp add: m(2))
  qed
qed

lemma findIndex_append_first:
  "Some (length ys) = findIndex p (ys @ z # zs) \<longleftrightarrow> (\<forall>y\<in>set ys. \<not> p y) \<and> p z"
proof -
  have "findIndex p (ys @ z # zs) = Some (length ys) \<longleftrightarrow> (\<forall>y\<in>set ys. \<not> p y) \<and> p z"
    by (induction ys) auto
  then show ?thesis
    by (rule trans [OF eq_commute])
qed

lemma subseq_skip:
  "c \<notin> set pre \<Longrightarrow> subseq (c # cs) (pre @ c # rest) \<longleftrightarrow> subseq cs rest"
  by (induction pre) auto

lemma subseq_head_mem: "subseq (c # cs) ys \<Longrightarrow> c \<in> set ys"
  by (induction ys) (auto split: if_splits)

lemma fuzzyLoop_subseq: "fuzzyLoop q t i \<longleftrightarrow> subseq q (drop i t)"
proof (induction q arbitrary: i)
  case Nil
  show ?case by simp
next
  case (Cons c cs)
  show ?case
  proof (cases "findIndex (\<lambda>x. x = c) (drop i t)")
    case None
    then have "\<forall>x\<in>set (drop i t). \<not> x = c"
      by (simp only: findIndex_None_iff)
    then have "c \<notin> set (drop i t)"
      by blast
    then have a: "\<not> subseq (c # cs) (drop i t)"
      by (blast dest: subseq_head_mem)
    have "indexOf t c i = None"
      using None by (simp only: indexOf_def option.map)
    then have "\<not> fuzzyLoop (c # cs) t i"
      by simp
    with a show ?thesis
      by blast
  next
    case (Some n)
    define pre where "pre = take n (drop i t)"
    define rest where "rest = drop (Suc n) (drop i t)"
    from findIndex_Some_split [OF Some]
    have n: "n < length (drop i t)" "drop i t ! n = c" "c \<notin> set pre"
      by (auto simp: pre_def)
    have dt: "drop i t = pre @ c # rest"
      using id_take_nth_drop [OF n(1)] unfolding n(2) pre_def rest_def .
    have "subseq (c # cs) (drop i t) \<longleftrightarrow> subseq cs rest"
      by (simp only: dt subseq_skip [OF n(3)])
    moreover have "rest = drop (i + n + 1) t"
      by (simp add: rest_def add.commute)
    moreover have "fuzzyLoop (c # cs) t i = fuzzyLoop cs t (i + n + 1)"
      using Some by (simp add: indexOf_def)
    ultimately show ?thesis
      using Cons.IH [of "i + n + 1"] by (simp only:)
  qed
qed

lemma fuzzyMatch_subseq:
  "fuzzyMatch P q key \<longleftrightarrow> subseq (toLowerCase P q) (toLowerCase P key)"
  by (simp add: fuzzyMatch_def fuzzyLoop_subseq)

lemma startsWith_prefix: "startsWith key q \<longleftrightarrow> prefix q key"
proof
  assume "startsWith key q"
  then have "key = q @ drop (length q) key"
    using append_take_drop_id [of "length q" key] by (simp add: startsWith_def)
  then show "prefix q key"
    by (rule prefixI)
next
  assume "prefix q key"
  then show "startsWith key q"
    by (auto simp: startsWith_def prefix_def)
qed

lemma set_exactMatches:
  "set (exactMatches P idx q) =
     {e\<lparr>score := Some 0\<rparr> | k es e. (k, es) \<in> set idx \<and> prefix q k \<and> e \<in> set es}"
proof -
  have "set (exactMatches P idx q) =
      (\<Union>kv\<in>set idx. if prefix q (fst kv) then (\<lambda>e. e\<lparr>score := Some 0\<rparr>) ` set (snd kv) else {})"
    by (auto simp: exactMatches_def startsWith_prefix split: if_splits)
  also have "\<dots> = {e\<lparr>score := Some 0\<rparr> | k es e. (k, es) \<in> set idx \<and> prefix q k \<and> e \<in> set es}"
    by (auto split: if_splits) force
  finally show ?thesis .
qed

lemma set_fuzzyMatches:
  "set (fuzzyMatches P idx q) =
     {e\<lparr>score := Some (1 / 2)\<rparr> | k es e.
        (k, es) \<in> set idx \<and> subseq (toLowerCase P q) (toLowerCase P k) \<and> e \<in> set es}"
proof -
  let ?m = "\<lambda>k. subseq (toLowerCase P q) (toLowerCase P k)"
  have "set (fuzzyMatches P idx q) =
      (\<Union>kv\<in>set idx. if ?m (fst kv) then (\<lambda>e. e\<lparr>score := Some (1 / 2)\<rparr>) ` set (snd kv) else {})"
    by (auto simp: fuzzyMatches_def fuzzyMatch_subseq split: if_splits)
  also have "\<dots> = {e\<lparr>score := Some (1 / 2)\<rparr> | k es e. (k, es) \<in> set idx \<and> ?m k \<and> e \<in> set es}"
    by (auto split: if_splits) force
  finally show ?thesis .
qed

lemma uniqueMatches_loop:
  "map snd (filter (\<lambda>(index, match).
       Some index = findIndex (\<lambda>m. sameTriple m match) (ys @ zs)) (enumerate (length ys) zs))
   = keepFirst (triple ` set ys) zs"
proof (induction zs arbitrary: ys)
  case Nil
  show ?case by simp
next
  case (Cons z zs)
  have "(\<forall>y\<in>set ys. triple y \<noteq> triple z) \<longleftrightarrow> triple z \<notin> triple ` set ys"
    by (simp add: image_iff) metis
  then have first: "Some (length ys) = findIndex (\<lambda>m. sameTriple m z) (ys @ z # zs)
      \<longleftrightarrow> triple z \<notin> triple ` set ys"
    by (simp add: findIndex_append_first sameTriple_iff)
  have rest: "map snd (filter (\<lambda>(index, match).
       Some index = findIndex (\<lambda>m. sameTriple m match) (ys @ z # zs))
         (enumerate (Suc (length ys)) zs))
     = keepFirst (triple ` set (ys @ [z])) zs"
    using Cons.IH [of "ys @ [z]"] by simp
  show ?case
  proof (cases "triple z \<in> triple ` set ys")
    case True
    then have "triple ` set (ys @ [z]) = triple ` set ys"
      by auto
    with True first rest show ?thesis
      by simp
  next
    case False
    have "triple ` set (ys @ [z]) = insert (triple z) (triple ` set ys)"
      by auto
    with False first rest show ?thesis
      by simp
  qed
qed

lemma uniqueMatches_keepFirst: "uniqueMatches xs = keepFirst {} xs"
  using uniqueMatches_loop [of "[]" xs] by (simp add: uniqueMatches_def)

lemma keepFirst_append:
  "keepFirst S (A @ B) = keepFirst S A @ keepFirst (S \<union> triple ` set A) B"
  by (induction A arbitrary: S) (simp_all add: insert_absorb)

lemma keepFirst_subset: "set (keepFirst S xs) \<subseteq> {x \<in> set xs. triple x \<notin> S}"
  by (induction xs arbitrary: S) auto

lemma keepFirst_distinct: "distinct (map triple (keepFirst S xs))"
proof (induction xs arbitrary: S)
  case Nil
  show ?case by simp
next
  case (Cons x xs)
  have "triple x \<notin> triple ` set (keepFirst (insert (triple x) S) xs)"
    using keepFirst_subset [of "insert (triple x) S" xs] by auto
  with Cons.IH show ?case
    by simp
qed

lemma getSuggestions_keepFirst:
  "getSuggestions P idx query =
     (if normalizeText P query = [] then []
      else take 100 (keepFirst {} (exactMatches P idx (normalizeText P query))
             @ keepFirst (triple ` set (exactMatches P idx (normalizeText P query)))
                 (fuzzyMatches P idx (normalizeText P query))))"
  by (simp add: getSuggestions_def Let_def uniqueMatches_keepFirst keepFirst_append)

lemma getSuggestions_unique:
  "getSuggestions P idx query =
      (if normalizeText P query = [] then []
       else take 100 (keepFirst {} (exactMatches P idx (normalizeText P query)
                                      @ fuzzyMatches P idx (normalizeText P query))))"
  by (simp add: getSuggestions_def Let_def uniqueMatches_keepFirst)

lemma getSuggestions_distinct: "distinct (map triple (getSuggestions P idx query))"
proof -
  have "distinct (map triple (take 100 (keepFirst {} xs)))" for xs
    unfolding take_map [symmetric] by (rule distinct_take [OF keepFirst_distinct])
  then show ?thesis
    unfolding getSuggestions_unique by simp
qed

lemma getSuggestions_blocks:
  "\<exists>ps fs. getSuggestions P idx query = ps @ fs
     \<and> set ps \<subseteq> set (exactMatches P idx (normalizeText P query))
     \<and> set fs \<subseteq> set (fuzzyMatches P idx (normalizeText P query))
     \<and> triple ` set fs \<inter> triple ` set (exactMatches P idx (normalizeText P query)) = {}"
proof (cases "normalizeText P query = []")
  case True
  then have "getSuggestions P idx query = [] @ []"
    by (simp add: getSuggestions_keepFirst)
  then show ?thesis
    by (intro exI [of _ "[]"]) simp
next
  case False
  define E where "E = exactMatches P idx (normalizeText P query)"
  define F where "F = fuzzyMatches P idx (normalizeText P query)"
  define ps where "ps = take 100 (keepFirst {} E)"
  define fs where "fs = take (100 - length (keepFirst {} E)) (keepFirst (triple ` set E) F)"
  have "getSuggestions P idx query = ps @ fs"
    using False by (simp add: getSuggestions_keepFirst E_def F_def ps_def fs_def)
  moreover have "set ps \<subseteq> set E"
    using set_take_subset [of 100 "keepFirst {} E"] keepFirst_subset [of "{}" E]
    unfolding ps_def by blast
  moreover have fs: "set fs \<subseteq> {x \<in> set F. triple x \<notin> triple ` set E}"
    using set_take_subset [of "100 - length (keepFirst {} E)" "keepFirst (triple ` set E) F"]
      keepFirst_subset [of "triple ` set E" F]
    unfolding fs_def by blast
  moreover from fs have "set fs \<subseteq> set F"
    by blast
  moreover from fs have "triple ` set fs \<inter> triple ` set E = {}"
    by blast
  ultimately show ?thesis
    unfolding E_def [symmetric] F_def [symmetric] by blast
qed

text \<open>
  Claim C1. For every query, \<open>getSuggestions\<close> returns the first 100 entries of the
  results of the prefix pass followed by the results of the fuzzy pass, where an entry is
  dropped when its triple (kind, sourceId, target) occurred earlier in that list. The
  prefix pass holds the entries, with score 0, of the keys that start with the
  normalized query; the fuzzy pass holds the entries, with score 0.5, of the keys of
  which the normalized query is a subsequence (\<open>fuzzyMatch\<close> lower-cases both). So the
  result is a block of prefix-pass entries followed by a block of fuzzy-pass entries
  whose triple no prefix-pass entry has, and no two entries of the result share the
  triple.
\<close>

theorem getSuggestions_prefix_before_fuzzy:
  "distinct (map triple (getSuggestions P idx query))
   \<and> getSuggestions P idx query =
       (if normalizeText P query = [] then []
        else take 100 (keepFirst {} (exactMatches P idx (normalizeText P query)
                                      @ fuzzyMatches P idx (normalizeText P query))))
   \<and> (\<exists>ps fs. getSuggestions P idx query = ps @ fs
         \<and> set ps \<subseteq> set (exactMatches P idx (normalizeText P query))
         \<and> set fs \<subseteq> set (fuzzyMatches P idx (normalizeText P query))
         \<and> triple ` set fs \<inter> triple ` set (exactMatches P idx (normalizeText P query)) = {})
   \<and> set (exactMatches P idx q) =
         {e\<lparr>score := Some 0\<rparr> | k es e. (k, es) \<in> set idx \<and> prefix q k \<and> e \<in> set es}
   \<and> set (fuzzyMatches P idx q) =
         {e\<lparr>score := Some (1 / 2)\<rparr> | k es e.
            (k, es) \<in> set idx \<and> subseq (toLowerCase P q) (toLowerCase P k) \<and> e \<in> set es}"
  by (intro conjI getSuggestions_distinct getSuggestions_unique getSuggestions_blocks
      set_exactMatches set_fuzzyMatches)

theorem getSuggestions_prefix_before_fuzzy_witness:
  "getSuggestions basicLatin exampleIndex (ustr ''pa'')
     = [parisEntry\<lparr>score := Some 0\<rparr>, pragueEntry\<lparr>score := Some (1 / 2)\<rparr>]
   \<and> exactMatches basicLatin exampleIndex (normalizeText basicLatin (ustr ''pa''))
     = [parisEntry\<lparr>score := Some 0\<rparr>]
   \<and> fuzzyMatches basicLatin exampleIndex (normalizeText basicLatin (ustr ''pa''))
     = [parisEntry\<lparr>score := Some (1 / 2)\<rparr>, pragueEntry\<lparr>score := Some (1 / 2)\<rparr>]
   \<and> distinct (map triple (getSuggestions basicLatin exampleIndex (ustr ''pa'')))"
proof -
  have "getSuggestions basicLatin exampleIndex (ustr ''pa'')
     = [parisEntry\<lparr>score := Some 0\<rparr>, pragueEntry\<lparr>score := Some (1 / 2)\<rparr>]"
    by code_simp
  moreover have "exactMatches basicLatin exampleIndex (normalizeText basicLatin (ustr ''pa''))
     = [parisEntry\<lparr>score := Some 0\<rparr>]"
    by code_simp
  moreover have "fuzzyMatches basicLatin exampleIndex (normalizeText basicLatin (ustr ''pa''))
     = [parisEntry\<lparr>score := Some (1 / 2)\<rparr>, pragueEntry\<lparr>score := Some (1 / 2)\<rparr>]"
    by code_simp
  moreover have "distinct (map triple (getSuggestions basicLatin exampleIndex (ustr ''pa'')))"
    using getSuggestions_prefix_before_fuzzy [of basicLatin exampleIndex "ustr ''pa''"]
    by (rule conjunct1)
  ultimately show ?thesis
    by (intro conjI)
qed

subsection \<open>Normalization\<close>

lemma filter_letters_no_marks:
  assumes "\<And>c. isLetterOrNumber P c \<Longrightarrow> \<not> isCombiningMark c"
  shows "filter (\<lambda>c. \<not> isCombiningMark c) (filter (isLetterOrNumber P) u) = filter (isLetterOrNumber P) u"
  using assms by (induction u) auto

text \<open>
  Claim C7. \<open>normalizeText\<close> is a total function of its argument and of the host's
  Unicode tables. It is idempotent on every text \<open>s\<close> and maps the empty text to the
  empty text, given these facts about the host, which Unicode provides for well-formed
  text: the key of \<open>s\<close> is in normalization form D (it holds lower-case letters and
  numbers that do not decompose, and no mark); lower-casing is idempotent, and a
  lower-case text stays lower-case when characters are dropped from it; no letter or
  number lies in the range U+0300..U+036F; NFD and lower-casing keep the empty text.
\<close>

theorem normalizeText_idempotent:
  assumes key_nfd: "nfd P (normalizeText P s) = normalizeText P s"
    and lower_idem: "\<And>u. toLowerCase P (toLowerCase P u) = toLowerCase P u"
    and lower_filter: "\<And>u. toLowerCase P u = u \<Longrightarrow>
          toLowerCase P (filter (isLetterOrNumber P) u) = filter (isLetterOrNumber P) u"
    and marks: "\<And>c. isLetterOrNumber P c \<Longrightarrow> \<not> isCombiningMark c"
    and empty: "nfd P [] = []" "toLowerCase P [] = []"
  shows "normalizeText P (normalizeText P s) = normalizeText P s \<and> normalizeText P [] = []"
proof -
  define v where "v = toLowerCase P (filter (\<lambda>c. \<not> isCombiningMark c) (nfd P s))"
  have k: "normalizeText P s = filter (isLetterOrNumber P) v"
    by (simp add: normalizeText_def v_def)
  have "toLowerCase P v = v"
    unfolding v_def by (rule lower_idem)
  then have low: "toLowerCase P (filter (isLetterOrNumber P) v) = filter (isLetterOrNumber P) v"
    by (rule lower_filter)
  have nk: "nfd P (filter (isLetterOrNumber P) v) = filter (isLetterOrNumber P) v"
    using key_nfd unfolding k .
  have "normalizeText P (normalizeText P s) =
      filter (isLetterOrNumber P)
        (toLowerCase P (filter (\<lambda>c. \<not> isCombiningMark c) (nfd P (normalizeText P s))))"
    by (simp only: normalizeText_def)
  also have "\<dots> = filter (isLetterOrNumber P)
        (toLowerCase P (filter (\<lambda>c. \<not> isCombiningMark c) (filter (isLetterOrNumber P) v)))"
    by (simp only: k nk)
  also have "\<dots> = filter (isLetterOrNumber P) (toLowerCase P (filter (isLetterOrNumber P) v))"
    by (simp only: filter_letters_no_marks [of P, OF marks])
  also have "\<dots> = filter (isLetterOrNumber P) (filter (isLetterOrNumber P) v)"
    by (simp only: low)
  also have "\<dots> = filter (isLetterOrNumber P) v"
    by simp
  finally have "normalizeText P (normalizeText P s) = normalizeText P s"
    by (simp only: k)
  moreover have "normalizeText P [] = []"
    by (simp add: normalizeText_def empty)
  ultimately show ?thesis
    by (rule conjI)
qed

lemma asciiLower_idem: "asciiLower (asciiLower c) = asciiLower c"
  by (simp add: asciiLower_def)

lemma basicLatin_lower_filter:
  assumes "map asciiLower u = u"
  shows "map asciiLower (filter p u) = filter p u"
proof -
  from assms have "\<forall>c\<in>set u. asciiLower c = c"
    by (induction u) auto
  then show ?thesis
    by (induction u) auto
qed

theorem normalizeText_idempotent_witness:
  "normalizeText basicLatin (ustr ''Paris, TX'') = ustr ''paristx''
   \<and> normalizeText basicLatin (normalizeText basicLatin (ustr ''Paris, TX'')) = ustr ''paristx''
   \<and> normalizeText basicLatin [] = []"
proof -
  have k: "normalizeText basicLatin (ustr ''Paris, TX'') = ustr ''paristx''"
    by code_simp
  have "normalizeText basicLatin (normalizeText basicLatin (ustr ''Paris, TX''))
          = normalizeText basicLatin (ustr ''Paris, TX'')
        \<and> normalizeText basicLatin [] = []"
  proof (rule normalizeText_idempotent)
    show "nfd basicLatin (normalizeText basicLatin (ustr ''Paris, TX''))
            = normalizeText basicLatin (ustr ''Paris, TX'')"
      by (simp add: basicLatin_def)
    show "toLowerCase basicLatin (toLowerCase basicLatin u) = toLowerCase basicLatin u" for u
      by (simp add: basicLatin_def asciiLower_idem)
    show "toLowerCase basicLatin (filter (isLetterOrNumber basicLatin) u)
            = filter (isLetterOrNumber basicLatin) u"
      if "toLowerCase basicLatin u = u" for u
      using that by (simp add: basicLatin_def basicLatin_lower_filter)
    show "\<not> isCombiningMark c" if "isLetterOrNumber basicLatin c" for c
      using that by (auto simp: basicLatin_def asciiLetterOrNumber_def isCombiningMark_def)
    show "nfd basicLatin [] = []" "toLowerCase basicLatin [] = []"
      by (simp_all add: basicLatin_def)
  qed
  with k show ?thesis
    by simp
qed

subsection \<open>The text of a link\<close>

text \<open>
  Claim C8, as amended. For every Tag entry and every matched phrase, both
  \<open>selectSuggestion\<close> and \<open>runQuickLink\<close> build the link \<open>[[target|phrase]]\<close>: the
  destination is the tag name held in the entry's target, and the shown text is the
  matched phrase as it stands in the line. The entry's display text is not used.
\<close>

theorem tag_link_shows_phrase:
  "type item = Tag \<longrightarrow>
     selectSuggestion_linkText item query = ustr ''[['' @ target item @ ustr ''|'' @ query @ ustr '']]''
     \<and> runQuickLink_linkText item query = ustr ''[['' @ target item @ ustr ''|'' @ query @ ustr '']]''"
  by (simp add: selectSuggestion_linkText_def runQuickLink_linkText_def)

theorem tag_link_shows_phrase_witness:
  "type travelEntry = Tag
   \<and> selectSuggestion_linkText travelEntry (ustr ''trav'') = ustr ''[[travel|trav]]''
   \<and> runQuickLink_linkText travelEntry (ustr ''trav'') = ustr ''[[travel|trav]]''"
proof -
  have t: "type travelEntry = Tag"
    by (simp add: travelEntry_def)
  have "ustr ''[['' @ target travelEntry @ ustr ''|'' @ ustr ''trav'' @ ustr '']]'' = ustr ''[[travel|trav]]''"
    by code_simp
  with t tag_link_shows_phrase [of travelEntry "ustr ''trav''"] show ?thesis
    by simp
qed

text \<open>
  The claim as stated fails: for the tag \<open>travel\<close>, whose display text is \<open>#travel\<close>,
  and the phrase \<open>trav\<close>, the link shows \<open>trav\<close>.
\<close>

theorem tag_link_display_text_counterexample:
  "type travelEntry = Tag
   \<and> displayText travelEntry = ustr ''#travel''
   \<and> selectSuggestion_linkText travelEntry (ustr ''trav'') = ustr ''[[travel|trav]]''
   \<and> selectSuggestion_linkText travelEntry (ustr ''trav'')
       \<noteq> ustr ''[['' @ target travelEntry @ ustr ''|'' @ displayText travelEntry @ ustr '']]''
   \<and> runQuickLink_linkText travelEntry (ustr ''trav'')
       \<noteq> ustr ''[['' @ target travelEntry @ ustr ''|'' @ displayText travelEntry @ ustr '']]''"
  by code_simp

subsection \<open>The sentence around the cursor\<close>

lemma scanBack_spec:
  "scanBack line ch \<le> ch
   \<and> (scanBack line ch = 0 \<or> isTerminator (charAt line (scanBack line ch - 1)))
   \<and> (\<forall>i. scanBack line ch \<le> i \<and> i < ch \<longrightarrow> \<not> isTerminator (charAt line i))"
proof (induction ch)
  case 0
  show ?case by simp
next
  case (Suc ch)
  show ?case
  proof (cases "isTerminator (charAt line ch)")
    case True
    then show ?thesis by auto
  next
    case False
    with Suc show ?thesis
      by (auto simp: less_Suc_eq)
  qed
qed

lemma scanForward_spec:
  "ch \<le> length line \<Longrightarrow>
   ch \<le> scanForward line ch \<and> scanForward line ch \<le> length line
   \<and> (scanForward line ch = length line \<or> isTerminator (charAt line (scanForward line ch)))
   \<and> (\<forall>i. ch \<le> i \<and> i < scanForward line ch \<longrightarrow> \<not> isTerminator (charAt line i))"
proof (induction line ch rule: scanForward.induct)
  case (1 line i)
  show ?case
  proof (cases "i < length line")
    case False
    then have "scanForward line i = length line"
      by (simp add: scanForward.simps [of line i])
    with False "1.prems" show ?thesis by auto
  next
    case True
    show ?thesis
    proof (cases "isTerminator (charAt line i)")
      case t: True
      with True have "scanForward line i = i"
        by (simp add: scanForward.simps [of line i])
      with True t show ?thesis by auto
    next
      case f: False
      from "1.IH" [OF True f] True
      have ih: "i + 1 \<le> scanForward line (i + 1) \<and> scanForward line (i + 1) \<le> length line
        \<and> (scanForward line (i + 1) = length line
            \<or> isTerminator (charAt line (scanForward line (i + 1))))
        \<and> (\<forall>j. i + 1 \<le> j \<and> j < scanForward line (i + 1) \<longrightarrow> \<not> isTerminator (charAt line j))"
        by simp
      have eq: "scanForward line i = scanForward line (i + 1)"
        using True f by (simp add: scanForward.simps [of line i])
      have "\<not> isTerminator (charAt line j)" if "i \<le> j" "j < scanForward line (i + 1)" for j
      proof (cases "j = i")
        case True
        with f show ?thesis by simp
      next
        case False
        with that ih show ?thesis by simp
      qed
      with ih show ?thesis
        unfolding eq by auto
    qed
  qed
qed

lemma trimStart_spec:
  "s \<le> e \<Longrightarrow>
   s \<le> trimStart line s e \<and> trimStart line s e \<le> e
   \<and> (\<forall>i. s \<le> i \<and> i < trimStart line s e \<longrightarrow> isWhiteSpace (charAt line i))
   \<and> (trimStart line s e = e \<or> \<not> isWhiteSpace (charAt line (trimStart line s e)))"
proof (induction line s e rule: trimStart.induct)
  case (1 line s e)
  show ?case
  proof (cases "s < e \<and> isWhiteSpace (charAt line s)")
    case False
    then have "trimStart line s e = s"
      by (auto simp: trimStart.simps [of line s e])
    with False "1.prems" show ?thesis by auto
  next
    case True
    then have eq: "trimStart line s e = trimStart line (s + 1) e"
      by (simp add: trimStart.simps [of line s e])
    from "1.IH" [OF True] True
    have ih: "s + 1 \<le> trimStart line (s + 1) e \<and> trimStart line (s + 1) e \<le> e
      \<and> (\<forall>i. s + 1 \<le> i \<and> i < trimStart line (s + 1) e \<longrightarrow> isWhiteSpace (charAt line i))
      \<and> (trimStart line (s + 1) e = e \<or> \<not> isWhiteSpace (charAt line (trimStart line (s + 1) e)))"
      by simp
    have "isWhiteSpace (charAt line i)" if "s \<le> i" "i < trimStart line (s + 1) e" for i
    proof (cases "i = s")
      case True
      with \<open>s < e \<and> isWhiteSpace (charAt line s)\<close> show ?thesis by simp
    next
      case False
      with that ih show ?thesis by simp
    qed
    with ih show ?thesis
      unfolding eq by auto
  qed
qed

lemma trimEnd_spec:
  "s \<le> e \<Longrightarrow>
   s \<le> trimEnd line s e \<and> trimEnd line s e \<le> e
   \<and> (\<forall>i. trimEnd line s e \<le> i \<and> i < e \<longrightarrow> isWhiteSpace (charAt line i))
   \<and> (trimEnd line s e = s \<or> \<not> isWhiteSpace (charAt line (trimEnd line s e - 1)))"
proof (induction line s e rule: trimEnd.induct)
  case (1 line s e)
  show ?case
  proof (cases "e > s \<and> isWhiteSpace (charAt line (e - 1))")
    case False
    then have "trimEnd line s e = e"
      by (auto simp: trimEnd.simps [of line s e])
    with False "1.prems" show ?thesis by auto
  next
    case True
    then have eq: "trimEnd line s e = trimEnd line s (e - 1)"
      by (simp add: trimEnd.simps [of line s e])
    from True have "s \<le> e - 1"
      by arith
    from "1.IH" [OF True this]
    have ih: "s \<le> trimEnd line s (e - 1) \<and> trimEnd line s (e - 1) \<le> e - 1
      \<and> (\<forall>i. trimEnd line s (e - 1) \<le> i \<and> i < e - 1 \<longrightarrow> isWhiteSpace (charAt line i))
      \<and> (trimEnd line s (e - 1) = s \<or> \<not> isWhiteSpace (charAt line (trimEnd line s (e - 1) - 1)))"
      by simp
    have "isWhiteSpace (charAt line i)" if "trimEnd line s (e - 1) \<le> i" "i < e" for i
    proof (cases "i = e - 1")
      case True
      with \<open>e > s \<and> isWhiteSpace (charAt line (e - 1))\<close> show ?thesis by simp
    next
      case False
      with that ih show ?thesis by simp
    qed
    with ih True show ?thesis
      unfolding eq by auto
  qed
qed


lemma onTrigger_bounds_spec:
  assumes inb: "ch \<le> length line"
  defines "s0 \<equiv> scanBack line ch" and "e0 \<equiv> scanForward line ch"
  defines "s \<equiv> fst (onTrigger_bounds line ch)" and "e \<equiv> snd (onTrigger_bounds line ch)"
  shows "s0 \<le> ch \<and> ch \<le> e0 \<and> e0 \<le> length line
    \<and> (s0 = 0 \<or> isTerminator (charAt line (s0 - 1)))
    \<and> (e0 = length line \<or> isTerminator (charAt line e0))
    \<and> (\<forall>i. s0 \<le> i \<and> i < e0 \<longrightarrow> \<not> isTerminator (charAt line i))
    \<and> s0 \<le> s \<and> s \<le> e \<and> e \<le> e0
    \<and> (\<forall>i. (s0 \<le> i \<and> i < s) \<or> (e \<le> i \<and> i < e0) \<longrightarrow> isWhiteSpace (charAt line i))
    \<and> (s = e \<or> (\<not> isWhiteSpace (charAt line s) \<and> \<not> isWhiteSpace (charAt line (e - 1))))"
proof -
  note bk = scanBack_spec [of line ch, folded s0_def]
  note fw = scanForward_spec [OF inb, folded e0_def]
  have s: "s = trimStart line s0 e0" and e: "e = trimEnd line s e0"
    by (simp_all add: s_def e_def onTrigger_bounds_def Let_def s0_def e0_def)
  from bk fw have le: "s0 \<le> e0"
    by linarith
  note ts = trimStart_spec [OF le, of line, folded s]
  then have "s \<le> e0"
    by simp
  note te = trimEnd_spec [OF this, of line, folded e]
  have "\<not> isTerminator (charAt line i)" if "s0 \<le> i" "i < e0" for i
    using that bk fw by (cases "i < ch") auto
  moreover have "s = e \<or> (\<not> isWhiteSpace (charAt line s) \<and> \<not> isWhiteSpace (charAt line (e - 1)))"
    using ts te by auto
  ultimately show ?thesis
    using bk fw ts te by auto
qed

lemma runQuickLink_bounds_untrimmed:
  "runQuickLink_bounds line ch = (fst (onTrigger_bounds line ch), scanForward line ch)"
  by (simp add: runQuickLink_bounds_def onTrigger_bounds_def Let_def)

text \<open>
  Claim C4. Both paths should return the sentence with leading and trailing white space
  trimmed. \<open>onTrigger\<close> does (\<open>onTrigger_bounds_spec\<close>); \<open>runQuickLink\<close> trims the start
  only and ends the sentence at the terminator or the end of the line. On the line
  \<open>Hi there\<close> followed by two spaces, with the cursor at offset 1, the sentence of
  \<open>runQuickLink\<close> keeps the two spaces, the sentence of \<open>onTrigger\<close> does not.
\<close>

theorem runQuickLink_trailing_space:
  "runQuickLink_bounds (ustr ''Hi there  '') 1 = (0, 10)
   \<and> runQuickLink_sentence (ustr ''Hi there  '') 1 = ustr ''Hi there  ''
   \<and> onTrigger_bounds (ustr ''Hi there  '') 1 = (0, 8)
   \<and> onTrigger_sentence (ustr ''Hi there  '') 1 = ustr ''Hi there''"
  by (simp add: runQuickLink_bounds_def runQuickLink_sentence_def onTrigger_bounds_def
      onTrigger_sentence_def substring_def Let_def scanForward.simps trimStart.simps
      trimEnd.simps isTerminator_def isWhiteSpace_def isSpaceChar_def charAt_def ustr_def)

subsection \<open>The debounced update\<close>

text \<open>
  Whatever file the pending timer belongs to, a new event clears it and sets a timer of
  its own.
\<close>

lemma debouncedIndexUpdate_timers:
  assumes "debounceTimeout s = Some t" and "t \<noteq> 0"
  shows "timers (debouncedIndexUpdate file s)
           = filter (\<lambda>p. fst p \<noteq> t) (timers s) @ [(nextTimer s, file)]"
  using assms by (simp add: debouncedIndexUpdate_def clearTimeout_def Let_def)

text \<open>
  Claim C9. When change events for two distinct notes arrive within the window, each
  should still be re-indexed once. In the code, for any two files \<open>a\<close> and \<open>b\<close> whose
  events arrive before a timer fires, the second event clears the timer of \<open>a\<close>: one
  timer is pending, that of \<open>b\<close>, and when the timers reach their time only \<open>b\<close> is
  re-indexed; so it is for \<open>a.md\<close> and \<open>b.md\<close>.
\<close>

theorem debounce_cancels_other_file:
  "timers (run initial [Changed a, Changed b]) = [(2, b)]
   \<and> reindexed (run initial [Changed a, Changed b, Elapsed 1, Elapsed 2]) = [b]
   \<and> reindexed (run initial [Changed fileA, Changed fileB, Elapsed 1, Elapsed 2]) = [fileB]"
  by (simp add: run_def initial_def debouncedIndexUpdate_def clearTimeout_def elapse_def Let_def)

end
